theory Spec2Isabelle
  imports Complex_Main "HOL-Library.Signed_Division" "HOL-Library.Multiset"
begin

section \<open>The chained hash table\<close>

text \<open>
  The class \<open>HashTable\<close> keeps an element counter \<open>size_\<close> and a vector \<open>table_\<close> of
  bucket heads; each bucket is a singly linked list of \<open>ListNode\<close>s that is only ever
  extended at its tail by a freshly allocated node, so no two buckets share a node and no
  bucket is cyclic. A bucket is therefore modelled by the list of the \<open>data\<close> fields of
  its nodes, in link order, and \<open>nullptr\<close> is the empty list.

  Values of the C++ type \<open>int\<close> are modelled by HOL integers. The development covers the
  executions in which the counter \<open>size_\<close> and the bucket count stay within the range
  of \<open>int\<close>, where \<open>++size_\<close> is the successor and the conversion of
  \<open>table.size()\<close> to \<open>int\<close> is the identity. What C++ arithmetic does differently
  from HOL within that range is written out: \<open>%\<close> truncates towards zero (\<open>smod\<close>,
  not \<open>mod\<close>), division by zero is undefined, and \<open>table[index]\<close> is guarded.
  An operation whose behaviour is undefined returns the \<open>error\<close> on the left of a sum.
\<close>

datatype error = DivisionByZero | OutOfBounds

type_synonym bucket = "int list"

record hashtable =
  size_f :: int
  table_f :: "bucket list"

subsection \<open>Private members\<close>

text \<open>\<open>int hash(int data, int K) { return data % K; }\<close>\<close>

definition hash :: "int \<Rightarrow> int \<Rightarrow> error + int" where
  "hash data K = (if K = 0 then Inl DivisionByZero else Inr (data smod K))"

text \<open>
  \<open>table[index]\<close> with an \<open>int\<close> index: a negative index converts to a huge
  \<open>size_t\<close>, so every index outside \<open>0 ..< table.size()\<close> leaves the vector.
\<close>

definition bucket_at :: "bucket list \<Rightarrow> int \<Rightarrow> bucket option" where
  "bucket_at table index =
     (if 0 \<le> index \<and> index < int (length table) then Some (table ! nat index) else None)"

text \<open>
  \<open>get_balance_factor\<close> divides the counter by the bucket count in \<open>double\<close>. Both
  operands are integers below \<open>2^31\<close>, which \<open>double\<close> represents exactly, and the
  only use of the quotient is the test \<open>> 0.5\<close>; an exact quotient that exceeds
  \<open>0.5\<close> does so by at least \<open>2^-32\<close>, far more than the rounding of the division, so
  the test on the rounded quotient is the test on the exact one. The quotient is
  modelled by a real number. A vector of no buckets, which the constructor never makes,
  is an error here already: whatever the quotient by zero is, the call of \<open>insert\<close>
  goes on to \<open>data % 0\<close>.
\<close>

definition get_balance_factor :: "hashtable \<Rightarrow> error + real" where
  "get_balance_factor t =
     (let K = int (length (table_f t))
      in if K = 0 then Inl DivisionByZero else Inr (real_of_int (size_f t) / real_of_int K))"

text \<open>
  The walk to the last node of a bucket and the link of the new node behind it; on
  \<open>nullptr\<close> the new node becomes the head.
\<close>

fun append_node :: "bucket \<Rightarrow> int \<Rightarrow> bucket" where
  "append_node [] data = [data]"
| "append_node (x # next) data = x # append_node next data"

text \<open>
  \<open>void insert(int data, std::vector<ListNode*>& table)\<close>: works on the vector it is
  given (the table's own or the new one of \<open>resize\<close>) and on the counter \<open>size_\<close> of
  the object, in both branches. The pair is the vector and the counter.
\<close>

definition insert_table :: "int \<Rightarrow> bucket list \<times> int \<Rightarrow> error + bucket list \<times> int" where
  "insert_table data st =
     (case st of (table, sz) \<Rightarrow>
        (case hash data (int (length table)) of
           Inl e \<Rightarrow> Inl e
         | Inr index \<Rightarrow>
             (case bucket_at table index of
                None \<Rightarrow> Inl OutOfBounds
              | Some head \<Rightarrow> Inr (table[nat index := append_node head data], sz + 1))))"

text \<open>The inner \<open>while (head)\<close> loop of \<open>resize\<close> over one bucket of the old vector.\<close>

fun rehash_bucket :: "bucket \<Rightarrow> bucket list \<times> int \<Rightarrow> error + bucket list \<times> int" where
  "rehash_bucket [] st = Inr st"
| "rehash_bucket (x # next) st =
     (case insert_table x st of Inl e \<Rightarrow> Inl e | Inr st' \<Rightarrow> rehash_bucket next st')"

text \<open>The outer \<open>for (ListNode* head : table_)\<close> loop of \<open>resize\<close>.\<close>

fun rehash_all :: "bucket list \<Rightarrow> bucket list \<times> int \<Rightarrow> error + bucket list \<times> int" where
  "rehash_all [] st = Inr st"
| "rehash_all (head # heads) st =
     (case rehash_bucket head st of Inl e \<Rightarrow> Inl e | Inr st' \<Rightarrow> rehash_all heads st')"

definition resize :: "hashtable \<Rightarrow> error + hashtable" where
  "resize t =
     (case rehash_all (table_f t) (replicate (length (table_f t) * 2) [], size_f t) of
        Inl e \<Rightarrow> Inl e
      | Inr (new_table, sz) \<Rightarrow> Inr \<lparr>size_f = sz, table_f = new_table\<rparr>)"

subsection \<open>Public members\<close>

definition HashTable :: "int \<Rightarrow> hashtable" where
  "HashTable cap = \<lparr>size_f = 0, table_f = replicate (nat (max cap 10)) []\<rparr>"

definition insert_key :: "hashtable \<Rightarrow> int \<Rightarrow> error + hashtable" where
  "insert_key t data =
     (case get_balance_factor t of
        Inl e \<Rightarrow> Inl e
      | Inr f \<Rightarrow>
          (case (if f > 0.5 then resize t else Inr t) of
             Inl e \<Rightarrow> Inl e
           | Inr t' \<Rightarrow>
               (case insert_table data (table_f t', size_f t') of
                  Inl e \<Rightarrow> Inl e
                | Inr (table, sz) \<Rightarrow> Inr \<lparr>size_f = sz, table_f = table\<rparr>)))"

text \<open>
  The loop of \<open>find\<close>: \<open>while (head) { if (head->data == data) return true; }\<close>. The
  body never assigns \<open>head\<close>, so the next iteration is at the same node. A run that
  does not return has the value \<open>None\<close>.
\<close>

partial_function (option) find_loop :: "bucket \<Rightarrow> int \<Rightarrow> bool option" where
  "find_loop head data =
     (case head of
        [] \<Rightarrow> Some False
      | x # next \<Rightarrow> if x = data then Some True else find_loop head data)"

declare find_loop.simps [code]

definition find_key :: "hashtable \<Rightarrow> int \<Rightarrow> (error + bool) option" where
  "find_key t data =
     (case hash data (int (length (table_f t))) of
        Inl e \<Rightarrow> Some (Inl e)
      | Inr index \<Rightarrow>
          (case bucket_at (table_f t) index of
             None \<Rightarrow> Some (Inl OutOfBounds)
           | Some head \<Rightarrow> map_option Inr (find_loop head data)))"

text \<open>\<open>bool erase(int data) { return false; }\<close>: the result and the table afterwards.\<close>

definition erase :: "hashtable \<Rightarrow> int \<Rightarrow> bool \<times> hashtable" where
  "erase t data = (False, t)"

definition size_ht :: "hashtable \<Rightarrow> int" where
  "size_ht t = size_f t"

text \<open>\<open>print\<close> writes the keys bucket by bucket, each bucket in link order.\<close>

definition print :: "hashtable \<Rightarrow> int list" where
  "print t = concat (table_f t)"

subsection \<open>Sequences of calls\<close>

text \<open>
  A run of \<open>insert\<close> calls on one table, as \<open>main\<close> makes them; it stops at the
  first call whose behaviour is undefined.
\<close>

fun inserts :: "hashtable \<Rightarrow> int list \<Rightarrow> error + hashtable" where
  "inserts t [] = Inr t"
| "inserts t (k # ks) = (case insert_key t k of Inl e \<Rightarrow> Inl e | Inr t' \<Rightarrow> inserts t' ks)"

text \<open>
  The states a client can bring a table to: it constructs the table and then calls
  \<open>insert\<close> and \<open>erase\<close>; \<open>find\<close>, \<open>size\<close> and \<open>print\<close> write no member.
\<close>

inductive reachable :: "hashtable \<Rightarrow> bool" where
  constructed: "reachable (HashTable cap)"
| inserted: "reachable t \<Longrightarrow> insert_key t data = Inr t' \<Longrightarrow> reachable t'"
| erased: "reachable t \<Longrightarrow> erase t data = (b, t') \<Longrightarrow> reachable t'"

subsection \<open>Properties of tables\<close>

text \<open>
  Every key of a table sits in the bucket whose index \<open>hash\<close> gives it under the
  table's own bucket count.
\<close>

definition well_placed :: "bucket list \<Rightarrow> bool" where
  "well_placed table =
     (\<forall>i < length table. \<forall>k \<in> set (table ! i). hash k (int (length table)) = Inr (int i))"

text \<open>
  What the load check of \<open>insert\<close> maintains: the counter is never below the number
  of stored keys, and the stored keys exceed half of the buckets by one key at most.
\<close>

definition load_inv :: "hashtable \<Rightarrow> bool" where
  "load_inv t \<longleftrightarrow>
     2 \<le> length (table_f t)
     \<and> int (length (print t)) \<le> size_f t
     \<and> 2 * length (print t) \<le> length (table_f t) + 2"

subsection \<open>The run of \<open>main\<close>\<close>

text \<open>
  The tables that the calls of \<open>main\<close> produce: after the keys 1, 15, 1, 2, 3, then
  after the sixth key 1, then after the seventh key 12. The others are the table with the
  keys 1 and 11, and the table with the key 1 twice.
\<close>

definition after_five :: hashtable where
  "after_five = \<lparr>size_f = 5, table_f = [[], [1, 1], [2], [3], [], [15], [], [], [], []]\<rparr>"

definition after_six :: hashtable where
  "after_six = \<lparr>size_f = 6, table_f = [[], [1, 1, 1], [2], [3], [], [15], [], [], [], []]\<rparr>"

definition after_seven :: hashtable where
  "after_seven = \<lparr>size_f = 13, table_f =
     [[], [1, 1, 1], [2], [3], [], [], [], [], [], [],
      [], [], [12], [], [], [15], [], [], [], []]\<rparr>"

definition after_two :: hashtable where
  "after_two = \<lparr>size_f = 2, table_f = [[], [1, 11], [], [], [], [], [], [], [], []]\<rparr>"

definition twice_one :: hashtable where
  "twice_one = \<lparr>size_f = 2, table_f = [[], [1, 1], [], [], [], [], [], [], [], []]\<rparr>"

section \<open>Auxiliary facts\<close>

subsection \<open>Hashing and the private insert\<close>

lemma append_node_eq: "append_node head data = head @ [data]"
  by (induction head) simp_all

lemma hash_nonneg:
  assumes "0 \<le> key" "1 \<le> K"
  shows "hash key K = Inr (key smod K)" "0 \<le> key smod K" "key smod K < K"
  using assms by (simp_all add: hash_def smod_int_compares)

lemma hash_negative:
  assumes "key < 0" "1 \<le> K" "\<not> K dvd key"
  shows "hash key K = Inr (key smod K)" "key smod K < 0"
proof -
  show "hash key K = Inr (key smod K)" using assms by (simp add: hash_def)
  have "\<bar>key\<bar> mod \<bar>K\<bar> \<noteq> 0" using assms by (simp add: dvd_eq_mod_eq_0 [symmetric])
  moreover have "0 \<le> \<bar>key\<bar> mod \<bar>K\<bar>" using assms by simp
  ultimately have "0 < \<bar>key\<bar> mod \<bar>K\<bar>" by linarith
  then show "key smod K < 0" using assms by (simp add: signed_modulo_int_def)
qed

lemma insert_table_nonneg:
  assumes "0 \<le> k" "table \<noteq> []"
  shows "insert_table k (table, sz) =
           Inr (table[nat (k smod int (length table)) :=
                        table ! nat (k smod int (length table)) @ [k]], sz + 1)"
proof -
  have K: "1 \<le> int (length table)" using assms(2) by (cases table) simp_all
  note h = hash_nonneg [OF assms(1) K]
  show ?thesis using h by (simp add: insert_table_def bucket_at_def append_node_eq)
qed

lemma mset_concat_update:
  "i < length xs \<Longrightarrow> mset (concat (xs[i := xs ! i @ [d]])) = add_mset d (mset (concat xs))"
proof (induction xs arbitrary: i)
  case Nil
  then show ?case by simp
next
  case (Cons x xs)
  then show ?case by (cases i) simp_all
qed

lemma well_placed_update:
  assumes "well_placed table" "0 \<le> k" "table \<noteq> []"
  shows "well_placed (table[nat (k smod int (length table)) :=
                        table ! nat (k smod int (length table)) @ [k]])"
proof -
  have K: "1 \<le> int (length table)" using assms(3) by (cases table) simp_all
  note h = hash_nonneg [OF assms(2) K]
  show ?thesis
    unfolding well_placed_def
  proof (intro allI impI ballI)
    fix i j
    assume i: "i < length (table[nat (k smod int (length table)) :=
                        table ! nat (k smod int (length table)) @ [k]])"
      and j: "j \<in> set (table[nat (k smod int (length table)) :=
                        table ! nat (k smod int (length table)) @ [k] ] ! i)"
    show "hash j (int (length (table[nat (k smod int (length table)) :=
                        table ! nat (k smod int (length table)) @ [k]]))) = Inr (int i)"
    proof (cases "i = nat (k smod int (length table))")
      case True
      with i j have "j = k \<or> j \<in> set (table ! i)" by auto
      then show ?thesis
      proof
        assume "j = k"
        with True h show ?thesis by simp
      next
        assume "j \<in> set (table ! i)"
        with assms(1) i show ?thesis by (simp add: well_placed_def)
      qed
    next
      case False
      with i j have "j \<in> set (table ! i)" by simp
      with assms(1) i show ?thesis by (simp add: well_placed_def)
    qed
  qed
qed

lemma well_placed_replicate: "well_placed (replicate n [])"
  by (simp add: well_placed_def)

lemma insert_table_Inr:
  assumes "insert_table k (table, sz) = Inr (table', sz')"
  shows "\<exists>i < length table. hash k (int (length table)) = Inr (int i)
           \<and> table' = table[i := table ! i @ [k]] \<and> sz' = sz + 1"
proof -
  from assms obtain index where h: "hash k (int (length table)) = Inr index"
    by (auto simp: insert_table_def split: sum.splits)
  with assms have b: "0 \<le> index" "index < int (length table)"
    by (auto simp: insert_table_def bucket_at_def split: if_splits)
  with assms h have "table' = table[nat index := table ! nat index @ [k]]" "sz' = sz + 1"
    by (auto simp: insert_table_def bucket_at_def append_node_eq)
  moreover have "nat index < length table" "int (nat index) = index" using b by simp_all
  ultimately show ?thesis using h by auto
qed

lemma insert_table_Inr_keys:
  assumes "insert_table k (table, sz) = Inr (table', sz')"
  shows "length table' = length table" "sz' = sz + 1"
    "mset (concat table') = add_mset k (mset (concat table))"
  using insert_table_Inr [OF assms] by (auto simp: mset_concat_update)

lemma insert_table_Inl:
  assumes "insert_table k (table, sz) = Inl e" "table \<noteq> []"
  shows "e = OutOfBounds"
  using assms by (auto simp: insert_table_def hash_def split: sum.splits option.splits if_splits)

subsection \<open>Rehashing\<close>

lemma rehash_bucket_nonneg:
  assumes "\<forall>k \<in> set xs. 0 \<le> k" "table \<noteq> []" "well_placed table"
  shows "\<exists>table'. rehash_bucket xs (table, sz) = Inr (table', sz + int (length xs))
           \<and> length table' = length table
           \<and> mset (concat table') = mset (concat table) + mset xs
           \<and> well_placed table'"
  using assms
proof (induction xs arbitrary: table sz)
  case Nil
  then show ?case by simp
next
  case (Cons x xs)
  let ?t = "table[nat (x smod int (length table)) := table ! nat (x smod int (length table)) @ [x]]"
  have x: "0 \<le> x" and xs: "\<forall>k \<in> set xs. 0 \<le> k" using Cons.prems(1) by simp_all
  have K: "1 \<le> int (length table)" using Cons.prems(2) by (cases table) simp_all
  have step: "insert_table x (table, sz) = Inr (?t, sz + 1)"
    using x Cons.prems(2) by (rule insert_table_nonneg)
  have ne: "?t \<noteq> []" using Cons.prems(2) by simp
  have wp: "well_placed ?t" using Cons.prems(3) x Cons.prems(2) by (rule well_placed_update)
  have idx: "nat (x smod int (length table)) < length table"
    using hash_nonneg(2,3) [OF x K] by linarith
  from Cons.IH [OF xs ne wp, of "sz + 1"] obtain table' where
    r: "rehash_bucket xs (?t, sz + 1) = Inr (table', sz + 1 + int (length xs))"
    and l: "length table' = length ?t"
    and m: "mset (concat table') = mset (concat ?t) + mset xs"
    and w: "well_placed table'" by blast
  have "rehash_bucket (x # xs) (table, sz) = Inr (table', sz + int (length (x # xs)))"
    using step r by simp
  moreover have "length table' = length table" using l by simp
  moreover have "mset (concat table') = mset (concat table) + mset (x # xs)"
    using m mset_concat_update [OF idx] by simp
  ultimately show ?case using w by blast
qed

lemma rehash_all_nonneg:
  assumes "\<forall>k \<in> set (concat heads). 0 \<le> k" "table \<noteq> []" "well_placed table"
  shows "\<exists>table'. rehash_all heads (table, sz) = Inr (table', sz + int (length (concat heads)))
           \<and> length table' = length table
           \<and> mset (concat table') = mset (concat table) + mset (concat heads)
           \<and> well_placed table'"
  using assms
proof (induction heads arbitrary: table sz)
  case Nil
  then show ?case by simp
next
  case (Cons h heads)
  have h: "\<forall>k \<in> set h. 0 \<le> k" and hs: "\<forall>k \<in> set (concat heads). 0 \<le> k"
    using Cons.prems(1) by simp_all
  from rehash_bucket_nonneg [OF h Cons.prems(2,3), of sz] obtain t1 where
    r1: "rehash_bucket h (table, sz) = Inr (t1, sz + int (length h))"
    and l1: "length t1 = length table"
    and m1: "mset (concat t1) = mset (concat table) + mset h"
    and w1: "well_placed t1" by blast
  have ne: "t1 \<noteq> []" using l1 Cons.prems(2) by auto
  from Cons.IH [OF hs ne w1, of "sz + int (length h)"] obtain t2 where
    r2: "rehash_all heads (t1, sz + int (length h)) =
           Inr (t2, sz + int (length h) + int (length (concat heads)))"
    and l2: "length t2 = length t1"
    and m2: "mset (concat t2) = mset (concat t1) + mset (concat heads)"
    and w2: "well_placed t2" by blast
  have "rehash_all (h # heads) (table, sz) = Inr (t2, sz + int (length (concat (h # heads))))"
    using r1 r2 by simp
  moreover have "length t2 = length table" using l1 l2 by simp
  moreover have "mset (concat t2) = mset (concat table) + mset (concat (h # heads))"
    using m1 m2 by simp
  ultimately show ?case using w2 by blast
qed

lemma resize_nonneg:
  assumes "\<forall>k \<in> set (print t). 0 \<le> k"
  shows "\<exists>new_table. resize t = Inr \<lparr>size_f = size_f t + int (length (print t)), table_f = new_table\<rparr>
           \<and> length new_table = 2 * length (table_f t)
           \<and> mset (concat new_table) = mset (print t)
           \<and> well_placed new_table"
proof (cases "table_f t = []")
  case True
  then show ?thesis by (simp add: resize_def print_def well_placed_def)
next
  case False
  let ?new = "replicate (length (table_f t) * 2) ([] :: bucket)"
  have ne: "?new \<noteq> []" using False by simp
  have ks: "\<forall>k \<in> set (concat (table_f t)). 0 \<le> k" using assms by (simp add: print_def)
  from rehash_all_nonneg [OF ks ne well_placed_replicate, of "size_f t"] obtain table' where
    r: "rehash_all (table_f t) (?new, size_f t) = Inr (table', size_f t + int (length (concat (table_f t))))"
    and l: "length table' = length ?new"
    and m: "mset (concat table') = mset (concat ?new) + mset (concat (table_f t))"
    and w: "well_placed table'" by blast
  have "resize t = Inr \<lparr>size_f = size_f t + int (length (print t)), table_f = table'\<rparr>"
    using r by (simp add: resize_def print_def)
  moreover have "length table' = 2 * length (table_f t)" using l by simp
  moreover have "mset (concat table') = mset (print t)" using m by (simp add: print_def)
  ultimately show ?thesis using w by blast
qed

lemma rehash_bucket_Inr:
  "rehash_bucket xs (table, sz) = Inr (table', sz') \<Longrightarrow>
     length table' = length table \<and> sz' = sz + int (length xs)
       \<and> mset (concat table') = mset (concat table) + mset xs"
proof (induction xs arbitrary: table sz)
  case Nil
  then show ?case by simp
next
  case (Cons x xs)
  from Cons.prems obtain t1 s1 where
    a: "insert_table x (table, sz) = Inr (t1, s1)"
    and b: "rehash_bucket xs (t1, s1) = Inr (table', sz')"
    by (auto split: sum.splits)
  from insert_table_Inr_keys [OF a] Cons.IH [OF b] show ?case by simp
qed

lemma rehash_all_Inr:
  "rehash_all heads (table, sz) = Inr (table', sz') \<Longrightarrow>
     length table' = length table \<and> sz' = sz + int (length (concat heads))
       \<and> mset (concat table') = mset (concat table) + mset (concat heads)"
proof (induction heads arbitrary: table sz)
  case Nil
  then show ?case by simp
next
  case (Cons h heads)
  from Cons.prems obtain t1 s1 where
    a: "rehash_bucket h (table, sz) = Inr (t1, s1)"
    and b: "rehash_all heads (t1, s1) = Inr (table', sz')"
    by (auto split: sum.splits)
  from rehash_bucket_Inr [OF a] Cons.IH [OF b] show ?case by simp
qed

lemma resize_Inr:
  assumes "resize t = Inr t'"
  shows "length (table_f t') = 2 * length (table_f t)"
    "size_f t' = size_f t + int (length (print t))"
    "mset (print t') = mset (print t)"
proof -
  from assms obtain nt sz where
    r: "rehash_all (table_f t) (replicate (length (table_f t) * 2) [], size_f t) = Inr (nt, sz)"
    and t': "t' = \<lparr>size_f = sz, table_f = nt\<rparr>"
    by (auto simp: resize_def split: sum.splits)
  from rehash_all_Inr [OF r] t'
  show "length (table_f t') = 2 * length (table_f t)"
    "size_f t' = size_f t + int (length (print t))"
    "mset (print t') = mset (print t)"
    by (simp_all add: print_def)
qed

lemma rehash_bucket_Inl:
  "rehash_bucket xs (table, sz) = Inl e \<Longrightarrow> table \<noteq> [] \<Longrightarrow> e = OutOfBounds"
proof (induction xs arbitrary: table sz)
  case Nil
  then show ?case by simp
next
  case (Cons x xs)
  show ?case
  proof (cases "insert_table x (table, sz)")
    case (Inl e')
    with Cons.prems show ?thesis by (auto dest: insert_table_Inl)
  next
    case (Inr st)
    obtain t1 s1 where st: "st = (t1, s1)" by (cases st)
    from insert_table_Inr_keys(1) [OF Inr [unfolded st]] Cons.prems(2)
    have "t1 \<noteq> []" by auto
    moreover from Cons.prems(1) Inr st have "rehash_bucket xs (t1, s1) = Inl e" by simp
    ultimately show ?thesis by (rule Cons.IH [rotated])
  qed
qed

lemma rehash_all_Inl:
  "rehash_all heads (table, sz) = Inl e \<Longrightarrow> table \<noteq> [] \<Longrightarrow> e = OutOfBounds"
proof (induction heads arbitrary: table sz)
  case Nil
  then show ?case by simp
next
  case (Cons h heads)
  show ?case
  proof (cases "rehash_bucket h (table, sz)")
    case (Inl e')
    with Cons.prems show ?thesis by (auto dest: rehash_bucket_Inl)
  next
    case (Inr st)
    obtain t1 s1 where st: "st = (t1, s1)" by (cases st)
    from rehash_bucket_Inr [OF Inr [unfolded st]] Cons.prems(2)
    have "t1 \<noteq> []" by auto
    moreover from Cons.prems(1) Inr st have "rehash_all heads (t1, s1) = Inl e" by simp
    ultimately show ?thesis by (rule Cons.IH [rotated])
  qed
qed

lemma resize_Inl:
  assumes "resize t = Inl e"
  shows "e = OutOfBounds"
proof (cases "table_f t = []")
  case True
  with assms show ?thesis by (simp add: resize_def)
next
  case False
  from assms have "rehash_all (table_f t) (replicate (length (table_f t) * 2) [], size_f t) = Inl e"
    by (auto simp: resize_def split: sum.splits)
  moreover have "replicate (length (table_f t) * 2) ([] :: bucket) \<noteq> []" using False by simp
  ultimately show ?thesis by (rule rehash_all_Inl)
qed

subsection \<open>The public insert\<close>

lemma insert_key_Inr:
  assumes "insert_key t k = Inr t'"
  shows "\<exists>t1. (if real_of_int (size_f t) / real (length (table_f t)) > 0.5
               then resize t = Inr t1 else t1 = t)
            \<and> table_f t \<noteq> []
            \<and> length (table_f t') = length (table_f t1)
            \<and> size_f t' = size_f t1 + 1
            \<and> mset (print t') = add_mset k (mset (print t1))"
proof -
  have ne: "table_f t \<noteq> []" using assms
    by (auto simp: insert_key_def get_balance_factor_def split: if_splits)
  then have f: "get_balance_factor t = Inr (real_of_int (size_f t) / real (length (table_f t)))"
    by (simp add: get_balance_factor_def)
  from assms f obtain t1 tb sz where
    a: "(if real_of_int (size_f t) / real (length (table_f t)) > 0.5 then resize t else Inr t) = Inr t1"
    and b: "insert_table k (table_f t1, size_f t1) = Inr (tb, sz)"
    and c: "t' = \<lparr>size_f = sz, table_f = tb\<rparr>"
    by (auto simp: insert_key_def split: sum.splits)
  from a have "if real_of_int (size_f t) / real (length (table_f t)) > 0.5
               then resize t = Inr t1 else t1 = t" by (auto split: if_splits)
  moreover from insert_table_Inr_keys [OF b] c
  have "length (table_f t') = length (table_f t1)" "size_f t' = size_f t1 + 1"
    "mset (print t') = add_mset k (mset (print t1))" by (simp_all add: print_def)
  ultimately show ?thesis using ne by blast
qed

lemma insert_key_nonneg:
  assumes "0 \<le> key" "table_f t \<noteq> []" "\<forall>k \<in> set (print t). 0 \<le> k"
  shows "\<exists>t'. insert_key t key = Inr t'"
proof -
  have f: "get_balance_factor t = Inr (real_of_int (size_f t) / real (length (table_f t)))"
    using assms(2) by (simp add: get_balance_factor_def)
  obtain t1 where t1: "(if real_of_int (size_f t) / real (length (table_f t)) > 0.5
                        then resize t else Inr t) = Inr t1" and ne: "table_f t1 \<noteq> []"
  proof (cases "real_of_int (size_f t) / real (length (table_f t)) > 0.5")
    case True
    from resize_nonneg [OF assms(3)] obtain nt where
      r: "resize t = Inr \<lparr>size_f = size_f t + int (length (print t)), table_f = nt\<rparr>"
      and l: "length nt = 2 * length (table_f t)" by blast
    from l assms(2) have "nt \<noteq> []" by auto
    with r True that show ?thesis by simp
  next
    case False
    with assms(2) that show ?thesis by simp
  qed
  from insert_table_nonneg [OF assms(1) ne, of "size_f t1"] f t1
  show ?thesis by (simp add: insert_key_def)
qed

lemma load_inv_HashTable: "load_inv (HashTable cap)"
  by (simp add: load_inv_def HashTable_def print_def)

lemma load_inv_insert_key:
  assumes "load_inv t" "insert_key t k = Inr t'"
  shows "load_inv t'"
proof -
  from insert_key_Inr [OF assms(2)] obtain t1 where
    a: "if real_of_int (size_f t) / real (length (table_f t)) > 0.5
        then resize t = Inr t1 else t1 = t"
    and l: "length (table_f t') = length (table_f t1)"
    and s: "size_f t' = size_f t1 + 1"
    and m: "mset (print t') = add_mset k (mset (print t1))" by blast
  from m have "size (mset (print t')) = size (add_mset k (mset (print t1)))" by simp
  then have n: "length (print t') = length (print t1) + 1" by simp
  from assms(1) have i: "2 \<le> length (table_f t)" "int (length (print t)) \<le> size_f t"
    "2 * length (print t) \<le> length (table_f t) + 2" by (simp_all add: load_inv_def)
  show ?thesis
  proof (cases "real_of_int (size_f t) / real (length (table_f t)) > 0.5")
    case True
    with a have r: "resize t = Inr t1" by (simp only: if_True)
    from resize_Inr(3) [OF r] have "size (mset (print t1)) = size (mset (print t))" by simp
    then have n1: "length (print t1) = length (print t)" by simp
    from resize_Inr(1,2) [OF r] n1 i l s n
    have "2 \<le> length (table_f t')" "int (length (print t')) \<le> size_f t'"
      "2 * length (print t') \<le> length (table_f t') + 2" by linarith+
    then show ?thesis by (simp only: load_inv_def simp_thms)
  next
    case False
    with a have t1: "t1 = t" by (simp only: if_False)
    from i(1) have "0 < length (table_f t)" by linarith
    then have pos: "0 < real (length (table_f t))" by (simp only: of_nat_0_less_iff)
    from False have "real_of_int (size_f t) / real (length (table_f t)) \<le> 1 / 2" by simp
    then have "real_of_int (size_f t) * 2 \<le> real (length (table_f t))"
      using pos by (simp add: field_simps)
    then have "real_of_int (size_f t * 2) \<le> real_of_int (int (length (table_f t)))" by simp
    then have "size_f t * 2 \<le> int (length (table_f t))" by (simp only: of_int_le_iff)
    with i l [unfolded t1] s [unfolded t1] n [unfolded t1]
    have "2 \<le> length (table_f t')" "int (length (print t')) \<le> size_f t'"
      "2 * length (print t') \<le> length (table_f t') + 2" by linarith+
    then show ?thesis by (simp only: load_inv_def simp_thms)
  qed
qed

lemma load_inv_reachable: "reachable t \<Longrightarrow> load_inv t"
proof (induction rule: reachable.induct)
  case (constructed cap)
  show ?case by (rule load_inv_HashTable)
next
  case (inserted t data t')
  then show ?case by (auto intro: load_inv_insert_key)
next
  case (erased t data b t')
  then show ?case by (simp add: erase_def)
qed

lemma reachable_inserts: "reachable t \<Longrightarrow> inserts t ks = Inr t' \<Longrightarrow> reachable t'"
proof (induction ks arbitrary: t)
  case Nil
  then show ?case by simp
next
  case (Cons k ks)
  from Cons.prems(2) obtain t1 where
    a: "insert_key t k = Inr t1" and b: "inserts t1 ks = Inr t'"
    by (auto split: sum.splits)
  from Cons.prems(1) a have "reachable t1" by (rule reachable.inserted)
  then show ?case using b by (rule Cons.IH)
qed

subsection \<open>The loop of find\<close>

lemma find_loop_returns:
  assumes "find_loop head data = Some b"
  shows "(head = [] \<and> \<not> b) \<or> (\<exists>next. head = data # next \<and> b)"
  using assms
proof (rule find_loop.raw_induct [rotated 1,
    where P = "\<lambda>h d r. (h = [] \<and> \<not> r) \<or> (\<exists>next. h = d # next \<and> r)"])
  fix f :: "bucket \<Rightarrow> int \<Rightarrow> bool option" and h :: bucket and d :: int and r :: bool
  assume IH: "\<And>h d r. f h d = Some r \<Longrightarrow> (h = [] \<and> \<not> r) \<or> (\<exists>next. h = d # next \<and> r)"
    and step: "(case h of [] \<Rightarrow> Some False | x # next \<Rightarrow> if x = d then Some True else f h d) = Some r"
  show "(h = [] \<and> \<not> r) \<or> (\<exists>next. h = d # next \<and> r)"
  proof (cases h)
    case Nil
    with step show ?thesis by simp
  next
    case (Cons x rest)
    show ?thesis
    proof (cases "x = d")
      case True
      with step Cons show ?thesis by simp
    next
      case False
      with step Cons have "f h d = Some r" by simp
      then show ?thesis by (rule IH)
    qed
  qed
qed

lemma find_loop_diverges: "x \<noteq> data \<Longrightarrow> find_loop (x # next) data = None"
  using find_loop_returns [of "x # next" data] by (cases "find_loop (x # next) data") auto

subsection \<open>The run of \<open>main\<close>, evaluated\<close>

lemma inserts_two: "inserts (HashTable 10) [1, 11] = Inr after_two"
  by code_simp

lemma inserts_twice_one: "inserts (HashTable 10) [1, 1] = Inr twice_one"
  by code_simp

lemma inserts_five: "inserts (HashTable 1) [1, 15, 1, 2, 3] = Inr after_five"
  by code_simp

lemma insert_sixth: "insert_key after_five 1 = Inr after_six"
  by code_simp

lemma inserts_six: "inserts (HashTable 1) [1, 15, 1, 2, 3, 1] = Inr after_six"
  by code_simp

lemma insert_seventh: "insert_key after_six 12 = Inr after_seven"
  by code_simp

lemma inserts_seven: "inserts (HashTable 1) [1, 15, 1, 2, 3, 1, 12] = Inr after_seven"
  by code_simp

lemma reachable_after_five: "reachable after_five"
  using reachable.constructed inserts_five by (rule reachable_inserts)

lemma reachable_after_six: "reachable after_six"
  using reachable.constructed inserts_six by (rule reachable_inserts)

section \<open>The claims\<close>

subsection \<open>C1: find terminates and reports membership\<close>

text \<open>
  C1 says that \<open>find(k)\<close> terminates on every reachable table, with \<open>true\<close> when a
  node of the bucket of \<open>k\<close> holds \<open>k\<close> and \<open>false\<close> when the bucket is exhausted.
  The loop of \<open>find\<close> never moves \<open>head\<close>: it returns only on an empty bucket or when
  the first node holds the key (\<open>find_loop_returns\<close>). After \<open>insert(1)\<close> and
  \<open>insert(11)\<close> on a table of 10 buckets, bucket 1 holds 1 and then 11, and
  \<open>find(11)\<close> does not return.
\<close>

theorem find_second_node_diverges:
  "inserts (HashTable 10) [1, 11] = Inr after_two
   \<and> bucket_at (table_f after_two) 1 = Some [1, 11]
   \<and> find_key after_two 11 = None"
proof -
  have "hash 11 (int (length (table_f after_two))) = Inr 1"
    by (simp add: hash_def after_two_def signed_modulo_int_def)
  moreover have b: "bucket_at (table_f after_two) 1 = Some [1, 11]"
    by (simp add: bucket_at_def after_two_def)
  moreover have "find_loop [1, 11] 11 = None" by (rule find_loop_diverges) simp
  ultimately have "find_key after_two 11 = None" by (simp add: find_key_def)
  with inserts_two b show ?thesis by simp
qed

subsection \<open>C2: the load factor after an insert\<close>

text \<open>
  C2 says that after every \<open>insert\<close> the stored element count divided by the bucket
  count is at most 0.5. Counterexample to C2: the sixth insert into a fresh table finds
  the load factor 5/10, which is not above 0.5, so it does not resize, and it leaves 6
  keys (and the counter 6) in 10 buckets.
\<close>

theorem load_factor_after_sixth_insert:
  "inserts (HashTable 1) [1, 15, 1, 2, 3, 1] = Inr after_six
   \<and> size_ht after_six = 6 \<and> length (print after_six) = 6 \<and> length (table_f after_six) = 10
   \<and> \<not> real_of_int (size_ht after_six) / real (length (table_f after_six)) \<le> 0.5"
  using inserts_six by (simp add: after_six_def size_ht_def print_def)

text \<open>
  C2, amended: \<open>insert\<close> checks the load factor before it adds the key, so the bound
  holds for the keys that were stored before the new one. On every table reachable from
  a constructed one, after \<open>insert\<close> returns, the number of stored keys less the key just
  added, divided by the bucket count, is at most 0.5.
\<close>

theorem stored_keys_load_bound:
  assumes "reachable t" "insert_key t data = Inr t'"
  shows "(real (length (print t')) - 1) / real (length (table_f t')) \<le> 0.5"
proof -
  have "reachable t'" using assms by (rule reachable.inserted)
  then have "load_inv t'" by (rule load_inv_reachable)
  then have a: "2 \<le> length (table_f t')" "2 * length (print t') \<le> length (table_f t') + 2"
    by (simp_all add: load_inv_def)
  from a(2) have "real (2 * length (print t')) \<le> real (length (table_f t') + 2)"
    by (simp only: of_nat_le_iff)
  then have "(real (length (print t')) - 1) * 2 \<le> real (length (table_f t'))" by simp
  moreover have "0 < length (table_f t')" using a(1) by linarith
  then have "0 < real (length (table_f t'))" by (simp only: of_nat_0_less_iff)
  ultimately show ?thesis by (simp add: field_simps)
qed

text \<open>
  Witness for C2, amended: the sixth insert of \<open>main\<close>, where the bound is met with
  equality (5 keys before the new one, 10 buckets).
\<close>

theorem stored_keys_load_bound_witness:
  "reachable after_five \<and> insert_key after_five 1 = Inr after_six
   \<and> (real (length (print after_six)) - 1) / real (length (table_f after_six)) \<le> 0.5"
  using stored_keys_load_bound [OF reachable_after_five insert_sixth]
    reachable_after_five insert_sixth by simp

subsection \<open>C3: insert adds one to size()\<close>

text \<open>
  C3 says that every \<open>insert\<close>, also one that resizes, raises \<open>size()\<close> by exactly one.
  \<open>resize\<close> moves the stored keys through the private \<open>insert\<close>, which counts each of
  them in \<open>size_\<close> a second time. The seventh insert of \<open>main\<close> resizes a table of 6
  keys: \<open>size()\<close> is 6 before the call and 13 after it.
\<close>

theorem insert_with_resize_counts_twice:
  "insert_key after_six 12 = Inr after_seven
   \<and> size_ht after_six = 6 \<and> size_ht after_seven = 13"
  using insert_seventh by (simp add: size_ht_def after_six_def after_seven_def)

subsection \<open>C4: resize keeps the keys\<close>

text \<open>
  C4: on every reachable table whose keys are non-negative, \<open>resize\<close> returns a table
  with twice the buckets and the same multiset of keys, each key in the bucket that
  \<open>hash\<close> gives it under the new bucket count.
\<close>

theorem resize_keeps_keys:
  assumes "reachable t" "\<forall>k \<in> set (print t). 0 \<le> k"
  shows "\<exists>t'. resize t = Inr t'
           \<and> length (table_f t') = 2 * length (table_f t)
           \<and> mset (print t') = mset (print t)
           \<and> well_placed (table_f t')"
proof -
  from resize_nonneg [OF assms(2)] obtain nt where
    "resize t = Inr \<lparr>size_f = size_f t + int (length (print t)), table_f = nt\<rparr>"
    "length nt = 2 * length (table_f t)" "mset (concat nt) = mset (print t)" "well_placed nt"
    by blast
  then show ?thesis by (simp add: print_def)
qed

text \<open>Witness for C4: the table of \<open>main\<close> after six inserts, with the key 1 three times.\<close>

theorem resize_keeps_keys_witness:
  "reachable after_six \<and> print after_six = [1, 1, 1, 2, 3, 15]
   \<and> (\<exists>t'. resize after_six = Inr t'
         \<and> length (table_f t') = 20
         \<and> mset (print t') = mset [1, 1, 1, 2, 3, 15]
         \<and> well_placed (table_f t'))"
proof -
  have p: "print after_six = [1, 1, 1, 2, 3, 15]" by (simp add: print_def after_six_def)
  have h: "\<forall>k \<in> set (print after_six). 0 \<le> k" by (simp add: p)
  have l: "length (table_f after_six) = 10" by (simp add: after_six_def)
  from resize_keeps_keys [OF reachable_after_six h] p l reachable_after_six
  show ?thesis by simp
qed

subsection \<open>C5: erase removes one occurrence\<close>

text \<open>
  C5 says that \<open>erase(k)\<close> on a table that stores \<open>k\<close> removes one occurrence, lowers
  \<open>size()\<close> by one and returns \<open>true\<close>. The body of \<open>erase\<close> is a placeholder that
  returns \<open>false\<close>: after \<open>insert(1)\<close> twice, \<open>erase(1)\<close> returns \<open>false\<close> and the table
  still holds both nodes and the counter 2.
\<close>

theorem erase_stored_key_is_noop:
  "inserts (HashTable 10) [1, 1] = Inr twice_one
   \<and> print twice_one = [1, 1] \<and> size_ht twice_one = 2
   \<and> erase twice_one 1 = (False, twice_one)"
  using inserts_twice_one by (simp add: erase_def print_def size_ht_def twice_one_def)

subsection \<open>C6: the scenario of main\<close>

text \<open>
  C6 says that the seven inserts 1, 15, 1, 2, 3, 1, 12 into a table constructed with
  capacity 1 give \<open>size() == 7\<close> and leave 10 buckets. Counterexample to C6: the run ends
  with 20 buckets and the counter 13.
\<close>

theorem main_scenario_counterexample:
  "inserts (HashTable 1) [1, 15, 1, 2, 3, 1, 12] = Inr after_seven
   \<and> size_ht after_seven = 13 \<and> length (table_f after_seven) = 20
   \<and> \<not> (size_ht after_seven = 7 \<and> length (table_f after_seven) = 10)"
  using inserts_seven by (simp add: size_ht_def after_seven_def)

text \<open>
  C6, amended: the table has 10 buckets after the first six inserts; the check before the
  seventh insert finds the load factor 6/10, above 0.5, and doubles the buckets, so the
  run ends with 20 buckets, which hold the seven keys, duplicates included.
\<close>

theorem main_scenario_buckets:
  "inserts (HashTable 1) [1, 15, 1, 2, 3, 1] = Inr after_six
   \<and> length (table_f after_six) = 10
   \<and> get_balance_factor after_six = Inr (6 / 10)
   \<and> inserts (HashTable 1) [1, 15, 1, 2, 3, 1, 12] = Inr after_seven
   \<and> length (table_f after_seven) = 20
   \<and> length (print after_seven) = 7
   \<and> mset (print after_seven) = mset [1, 15, 1, 2, 3, 1, 12]"
  using inserts_six inserts_seven
  by (simp add: after_six_def after_seven_def get_balance_factor_def print_def)

subsection \<open>C7: erase of an absent key\<close>

text \<open>
  C7: on every reachable table, \<open>erase(k)\<close> for a key \<open>k\<close> that is not stored returns
  \<open>false\<close> and leaves the table, and with it \<open>size()\<close>, as it was.
\<close>

theorem erase_absent_key:
  assumes "reachable t" "k \<notin> set (print t)"
  shows "fst (erase t k) = False \<and> snd (erase t k) = t
           \<and> size_ht (snd (erase t k)) = size_ht t"
  by (simp add: erase_def)

text \<open>Witness for C7: the key 999 on the table of \<open>main\<close> after six inserts.\<close>

theorem erase_absent_key_witness:
  "reachable after_six \<and> 999 \<notin> set (print after_six)
   \<and> fst (erase after_six 999) = False \<and> snd (erase after_six 999) = after_six
   \<and> size_ht (snd (erase after_six 999)) = 6"
proof -
  have a: "999 \<notin> set (print after_six)" by (simp add: print_def after_six_def)
  have s: "size_ht after_six = 6" by (simp add: size_ht_def after_six_def)
  from erase_absent_key [OF reachable_after_six a] a s reachable_after_six
  show ?thesis by simp
qed

subsection \<open>C8: find on a constructed table\<close>

text \<open>
  C8: on a table that was constructed and never inserted into, \<open>find(k)\<close> returns
  \<open>false\<close> for every non-negative key \<open>k\<close>, whatever capacity was asked for.
\<close>

theorem find_on_constructed:
  assumes "0 \<le> k"
  shows "find_key (HashTable cap) k = Some (Inr False)"
proof -
  define n where "n = nat (max cap 10)"
  have tb: "table_f (HashTable cap) = replicate n []" by (simp add: HashTable_def n_def)
  have "0 < n" unfolding n_def by (simp add: less_max_iff_disj)
  then have n: "1 \<le> int n" by linarith
  note h = hash_nonneg [OF assms n]
  have "nat (k smod int n) < n" using h(2,3) by linarith
  then have "bucket_at (replicate n []) (k smod int n) = Some []"
    using h(2,3) by (simp add: bucket_at_def)
  moreover have "find_loop [] k = Some False" by (simp add: find_loop.simps)
  ultimately show ?thesis using h(1) by (simp add: find_key_def tb)
qed

text \<open>Witness for C8: the key 999 on a table constructed with capacity 1.\<close>

theorem find_on_constructed_witness:
  "(0::int) \<le> 999 \<and> find_key (HashTable 1) 999 = Some (Inr False)"
  using find_on_constructed [of 999 1] by simp

subsection \<open>C9: the range of hash\<close>

text \<open>
  C9: for a non-negative key and a bucket count \<open>K\<close> of at least 1, \<open>hash\<close> returns an
  index \<open>i\<close> with \<open>0 \<le> i < K\<close>; it reads nothing but its two arguments, so the index is
  a function of them. With that index the bucket access of the private \<open>insert\<close> and of
  \<open>find\<close> on a vector of \<open>K\<close> buckets is inside the vector, and the public \<open>insert\<close>,
  which may rehash the stored keys first, returns when they are non-negative too.
\<close>

theorem hash_within_bounds:
  assumes "0 \<le> key" "1 \<le> K"
  shows "\<exists>i. hash key K = Inr i \<and> 0 \<le> i \<and> i < K
           \<and> (\<forall>table sz. int (length table) = K \<longrightarrow>
                 bucket_at table i = Some (table ! nat i)
                 \<and> insert_table key (table, sz) =
                     Inr (table[nat i := append_node (table ! nat i) key], sz + 1))
           \<and> (\<forall>t. int (length (table_f t)) = K \<longrightarrow>
                 find_key t key = map_option Inr (find_loop (table_f t ! nat i) key)
                 \<and> ((\<forall>k \<in> set (print t). 0 \<le> k) \<longrightarrow> (\<exists>t'. insert_key t key = Inr t')))"
proof -
  note h = hash_nonneg [OF assms]
  have b: "bucket_at table (key smod K) = Some (table ! nat (key smod K))"
    if "int (length table) = K" for table :: "bucket list"
    using h(2,3) that by (simp add: bucket_at_def)
  have it: "insert_table key (table, sz) =
              Inr (table[nat (key smod K) := append_node (table ! nat (key smod K)) key], sz + 1)"
    if "int (length table) = K" for table :: "bucket list" and sz
    using h(1) b [OF that] that by (simp add: insert_table_def)
  have fk: "find_key t key = map_option Inr (find_loop (table_f t ! nat (key smod K)) key)"
    if "int (length (table_f t)) = K" for t
    using h(1) b [OF that] that by (simp add: find_key_def)
  have ik: "\<exists>t'. insert_key t key = Inr t'"
    if "int (length (table_f t)) = K" "\<forall>k \<in> set (print t). 0 \<le> k" for t
  proof -
    have "table_f t \<noteq> []" using that(1) assms(2) by auto
    with assms(1) show ?thesis using that(2) by (rule insert_key_nonneg)
  qed
  from h b it fk ik show ?thesis by blast
qed

text \<open>
  Witness for C9: the key 15 and 10 buckets, on the table of \<open>main\<close> after six inserts;
  the index is 5, where the first 15 sits.
\<close>

theorem hash_within_bounds_witness:
  "(0::int) \<le> 15 \<and> (1::int) \<le> 10 \<and> hash 15 10 = Inr 5
   \<and> bucket_at (table_f after_six) 5 = Some [15]
   \<and> insert_table 15 (table_f after_six, 6) =
        Inr ([[], [1, 1, 1], [2], [3], [], [15, 15], [], [], [], []], 7)
   \<and> find_key after_six 15 = Some (Inr True)"
proof -
  from hash_within_bounds [of 15 10] obtain i where
    i: "hash 15 10 = Inr i"
    and tb: "\<And>table sz. int (length table) = 10 \<Longrightarrow>
               bucket_at table i = Some (table ! nat i)
               \<and> insert_table 15 (table, sz) =
                   Inr (table[nat i := append_node (table ! nat i) 15], sz + 1)"
    and fd: "\<And>t. int (length (table_f t)) = 10 \<Longrightarrow>
               find_key t 15 = map_option Inr (find_loop (table_f t ! nat i) 15)"
    by auto
  have i5: "i = 5" using i by (simp add: hash_def signed_modulo_int_def)
  have l: "int (length (table_f after_six)) = 10" by (simp add: after_six_def)
  have "find_loop [15] 15 = Some True" by (simp add: find_loop.simps)
  with tb [OF l, of 6] fd [OF l] i show ?thesis
    unfolding i5 by (simp add: after_six_def)
qed

subsection \<open>C10: negative keys\<close>

text \<open>
  C10: for a negative key that is not a multiple of the bucket count \<open>K\<close>, \<open>hash\<close>
  returns a negative index, no vector has a bucket at that index, and on a table of \<open>K\<close>
  buckets the bucket access of the private \<open>insert\<close>, of \<open>find\<close> and of the public
  \<open>insert\<close> (after a resize as well) is outside the vector.
\<close>

theorem hash_negative_leaves_vector:
  assumes "key < 0" "1 \<le> K" "\<not> K dvd key"
  shows "\<exists>i. hash key K = Inr i \<and> i < 0
           \<and> (\<forall>table. bucket_at table i = None)
           \<and> (\<forall>table sz. int (length table) = K \<longrightarrow>
                 insert_table key (table, sz) = Inl OutOfBounds)
           \<and> (\<forall>t. int (length (table_f t)) = K \<longrightarrow>
                 find_key t key = Some (Inl OutOfBounds)
                 \<and> insert_key t key = Inl OutOfBounds)"
proof -
  note h = hash_negative [OF assms]
  have b: "bucket_at table (key smod K) = None" for table :: "bucket list"
    using h(2) by (simp add: bucket_at_def)
  have it: "insert_table key (table, sz) = Inl OutOfBounds"
    if "int (length table) = K" for table :: "bucket list" and sz
    using h(1) b that by (simp add: insert_table_def)
  have fk: "find_key t key = Some (Inl OutOfBounds)"
    if "int (length (table_f t)) = K" for t
    using h(1) b that by (simp add: find_key_def)
  have ik: "insert_key t key = Inl OutOfBounds" if l: "int (length (table_f t)) = K" for t
  proof -
    have ne: "table_f t \<noteq> []" using l assms(2) by auto
    then have f: "get_balance_factor t = Inr (real_of_int (size_f t) / real (length (table_f t)))"
      by (simp add: get_balance_factor_def)
    show ?thesis
    proof (cases "real_of_int (size_f t) / real (length (table_f t)) > 0.5")
      case False
      with f it [OF l] show ?thesis by (simp add: insert_key_def)
    next
      case True
      show ?thesis
      proof (cases "resize t")
        case (Inl e)
        then have "e = OutOfBounds" by (rule resize_Inl)
        with Inl f True show ?thesis by (simp add: insert_key_def)
      next
        case (Inr t1)
        from resize_Inr(1) [OF Inr] l have l1: "int (length (table_f t1)) = 2 * K" by simp
        have "\<not> 2 * K dvd key" using assms(3) by (auto dest: dvd_mult_right)
        moreover have "1 \<le> 2 * K" using assms(2) by simp
        ultimately have h2: "hash key (2 * K) = Inr (key smod (2 * K))" "key smod (2 * K) < 0"
          using hash_negative [OF assms(1)] by blast+
        then have "insert_table key (table_f t1, size_f t1) = Inl OutOfBounds"
          using l1 by (simp add: insert_table_def bucket_at_def)
        with Inr f True show ?thesis by (simp add: insert_key_def)
      qed
    qed
  qed
  from h b it fk ik show ?thesis by blast
qed

text \<open>Witness for C10: the key -1 on a table constructed with 10 buckets.\<close>

theorem hash_negative_leaves_vector_witness:
  "(- 1 :: int) < 0 \<and> (1::int) \<le> 10 \<and> \<not> (10::int) dvd - 1
   \<and> hash (- 1) 10 = Inr (- 1)
   \<and> bucket_at (table_f (HashTable 10)) (- 1) = None
   \<and> insert_table (- 1) (table_f (HashTable 10), 0) = Inl OutOfBounds
   \<and> find_key (HashTable 10) (- 1) = Some (Inl OutOfBounds)
   \<and> insert_key (HashTable 10) (- 1) = Inl OutOfBounds"
proof -
  have a: "(- 1 :: int) < 0" "(1::int) \<le> 10" "\<not> (10::int) dvd - 1" by simp_all
  from hash_negative_leaves_vector [OF a] obtain i where
    i: "hash (- 1) 10 = Inr i"
    and b: "\<And>table. bucket_at table i = None"
    and it: "\<And>table sz. int (length table) = 10 \<Longrightarrow>
               insert_table (- 1) (table, sz) = Inl OutOfBounds"
    and t: "\<And>t. int (length (table_f t)) = 10 \<Longrightarrow>
               find_key t (- 1) = Some (Inl OutOfBounds)
               \<and> insert_key t (- 1) = Inl OutOfBounds"
    by auto
  have i1: "i = - 1" using i by (simp add: hash_def signed_modulo_int_def)
  have l: "int (length (table_f (HashTable 10))) = 10" by (simp add: HashTable_def)
  from i b [of "table_f (HashTable 10)"] it [OF l, of 0] t [OF l] a show ?thesis
    unfolding i1 by simp
qed

end
